theory Spec2Isabelle
  imports Complex_Main "HOL-Library.Multiset"
begin

section \<open>JavaScript numbers\<close>

text \<open>
  The detector computes with JavaScript numbers. A finite number is modelled by a real
  (rounding error of the binary format is not modelled), and the three non-finite values
  are kept apart, because the code can produce them: a division by zero gives an
  infinity, and \<open>0 / 0\<close>, \<open>Infinity - Infinity\<close> or an out-of-range array read give
  \<open>NaN\<close>. The model has one zero (the positive one). Every comparison with \<open>NaN\<close>
  is false.
\<close>

datatype number = Num real | PosInf | NegInf | NaN

fun nneg :: "number \<Rightarrow> number" where
  "nneg (Num x) = Num (- x)"
| "nneg PosInf = NegInf"
| "nneg NegInf = PosInf"
| "nneg NaN = NaN"

fun nadd :: "number \<Rightarrow> number \<Rightarrow> number" where
  "nadd (Num x) (Num y) = Num (x + y)"
| "nadd NaN _ = NaN"
| "nadd _ NaN = NaN"
| "nadd PosInf NegInf = NaN"
| "nadd NegInf PosInf = NaN"
| "nadd PosInf _ = PosInf"
| "nadd _ PosInf = PosInf"
| "nadd NegInf _ = NegInf"
| "nadd _ NegInf = NegInf"

definition nsub :: "number \<Rightarrow> number \<Rightarrow> number" where
  "nsub a b = nadd a (nneg b)"

text \<open>An infinity scaled by the sign of a finite factor.\<close>

definition scaleInf :: "real \<Rightarrow> number \<Rightarrow> number" where
  "scaleInf s a = (if s = 0 then NaN else if 0 < s then a else nneg a)"

fun nmul :: "number \<Rightarrow> number \<Rightarrow> number" where
  "nmul (Num x) (Num y) = Num (x * y)"
| "nmul NaN _ = NaN"
| "nmul _ NaN = NaN"
| "nmul (Num x) b = scaleInf x b"
| "nmul a (Num y) = scaleInf y a"
| "nmul PosInf b = b"
| "nmul NegInf b = nneg b"

fun ndiv :: "number \<Rightarrow> number \<Rightarrow> number" where
  "ndiv (Num x) (Num y) =
     (if y = 0 then (if x = 0 then NaN else if 0 < x then PosInf else NegInf)
      else Num (x / y))"
| "ndiv NaN _ = NaN"
| "ndiv _ NaN = NaN"
| "ndiv (Num x) _ = Num 0"
| "ndiv a (Num y) = (if 0 \<le> y then a else nneg a)"
| "ndiv _ _ = NaN"

fun nlt :: "number \<Rightarrow> number \<Rightarrow> bool" where
  "nlt (Num x) (Num y) = (x < y)"
| "nlt NaN _ = False"
| "nlt _ NaN = False"
| "nlt _ NegInf = False"
| "nlt PosInf _ = False"
| "nlt _ _ = True"

fun nle :: "number \<Rightarrow> number \<Rightarrow> bool" where
  "nle (Num x) (Num y) = (x \<le> y)"
| "nle NaN _ = False"
| "nle _ NaN = False"
| "nle NegInf _ = True"
| "nle _ PosInf = True"
| "nle _ _ = False"

definition ngt :: "number \<Rightarrow> number \<Rightarrow> bool" where
  "ngt a b = nlt b a"

definition nge :: "number \<Rightarrow> number \<Rightarrow> bool" where
  "nge a b = nle b a"

text \<open>\<open>===\<close> on numbers: \<open>NaN\<close> is not equal to itself.\<close>

definition strictEq :: "number \<Rightarrow> number \<Rightarrow> bool" where
  "strictEq a b = (a \<noteq> NaN \<and> a = b)"

text \<open>\<open>Math.round\<close> rounds to the nearest integer, a tie towards \<open>+\<infinity>\<close>.\<close>

fun mathRound :: "number \<Rightarrow> number" where
  "mathRound (Num x) = Num (of_int \<lfloor>x + 1 / 2\<rfloor>)"
| "mathRound a = a"

fun mathAbs :: "number \<Rightarrow> number" where
  "mathAbs (Num x) = Num \<bar>x\<bar>"
| "mathAbs NaN = NaN"
| "mathAbs _ = PosInf"

definition mathMax :: "number \<Rightarrow> number \<Rightarrow> number" where
  "mathMax a b = (if a = NaN \<or> b = NaN then NaN else if nlt a b then b else a)"

section \<open>Data model\<close>

text \<open>
  The fields of the class \<open>BeatDetect\<close> that the analysis reads. The options are finite
  numbers; \<open>float\<close>, the number of decimal digits kept, is a natural number.
\<close>

record BeatDetect =
  sampleRate :: real
  round_opt :: bool
  float :: nat
  bpmRange :: "real \<times> real"
  timeSignature :: real

text \<open>The values the constructor falls back to.\<close>

definition defaults :: BeatDetect where
  "defaults = \<lparr>sampleRate = 44100, round_opt = False, float = 8, bpmRange = (90, 180),
     timeSignature = 4\<rparr>"

record Peak =
  position :: number
  volume :: number

record IntervalGroup =
  tempo :: number
  count :: nat
  position_g :: number
  peaks_g :: "Peak list"

record Offsets =
  offset :: number
  firstBar :: number

record BeatInfo = Offsets +
  bpm_info :: number

text \<open>
  The only exception the analysis can raise: a property read on \<open>undefined\<close>
  (\<open>top[0].tempo\<close>, \<open>peaks[0].position\<close>, \<open>unsortedPeaks[i].volume\<close>).
\<close>

datatype error = TypeError

text \<open>
  A channel is a \<open>Float32Array\<close> of finite samples. Reading it at a number that is not
  an index of the array gives \<open>undefined\<close>, which every use below converts to \<open>NaN\<close>.
\<close>

definition typedArrayGet :: "real list \<Rightarrow> real \<Rightarrow> number" where
  "typedArrayGet d j =
     (if j = of_int \<lfloor>j\<rfloor> \<and> 0 \<le> j \<and> j < real (length d) then Num (d ! nat \<lfloor>j\<rfloor>) else NaN)"

section \<open>Helpers\<close>

text \<open>\<open>_floatRound\<close>.\<close>

definition floatRound :: "number \<Rightarrow> nat \<Rightarrow> number" where
  "floatRound v precision =
     (let multiplier = Num (10 ^ precision) in ndiv (mathRound (nmul v multiplier)) multiplier)"

text \<open>
  \<open>Array.prototype.sort\<close> with a comparison function. The sort is stable, so for a
  comparison function that is a consistent order its result is determined: insertion from
  the right computes it. \<open>cmp a b > 0\<close> puts \<open>a\<close> after \<open>b\<close>.
\<close>

fun insertBy :: "('a \<Rightarrow> 'a \<Rightarrow> number) \<Rightarrow> 'a \<Rightarrow> 'a list \<Rightarrow> 'a list" where
  "insertBy cmp x [] = [x]"
| "insertBy cmp x (y # ys) =
     (if ngt (cmp x y) (Num 0) then y # insertBy cmp x ys else x # y # ys)"

definition sortArray :: "('a \<Rightarrow> 'a \<Rightarrow> number) \<Rightarrow> 'a list \<Rightarrow> 'a list" where
  "sortArray cmp xs = foldr (insertBy cmp) xs []"

text \<open>
  \<open>xs.splice(0, n)\<close>, the elements it returns: the first \<open>n\<close>, with \<open>n\<close> truncated to an
  integer and clamped to the length.
\<close>

definition spliceFront :: "real \<Rightarrow> 'a list \<Rightarrow> 'a list" where
  "spliceFront n xs = take (nat \<lfloor>n\<rfloor>) xs"

section \<open>Peak extraction\<close>

text \<open>
  The loop \<open>for (let i = 0; i < parts; ++i)\<close> of \<open>_getPeaks\<close> and \<open>_getOffsets\<close>, which
  pushes one peak per part. \<open>parts\<close> is a quotient that is not rounded; when the sample
  rate is zero it is infinite and the loop does not end: the result is then \<open>None\<close>.
\<close>

partial_function (option) forParts ::
  "number \<Rightarrow> (nat \<Rightarrow> Peak) \<Rightarrow> nat \<Rightarrow> Peak list \<Rightarrow> Peak list option" where
  "forParts parts body i peaks =
     (if nlt (Num (real i)) parts then forParts parts body (Suc i) (peaks @ [body i])
      else Some peaks)"

definition partSize :: "BeatDetect \<Rightarrow> real" where
  "partSize cfg = sampleRate cfg / 2"

definition parts :: "BeatDetect \<Rightarrow> real list \<Rightarrow> number" where
  "parts cfg d = ndiv (Num (real (length d))) (Num (partSize cfg))"

text \<open>
  The inner loop of \<open>_getPeaks\<close> over the samples \<open>j\<close> of one part, from \<open>j\<close> up to
  \<open>stop\<close>; \<open>mx\<close> is the variable \<open>max\<close> of the source. The test \<open>!max\<close> of the source
  never holds, since \<open>max\<close> is an object.
\<close>

function getPeaks_part :: "real list \<Rightarrow> real list \<Rightarrow> real \<Rightarrow> real \<Rightarrow> Peak \<Rightarrow> Peak" where
  "getPeaks_part d0 d1 j stop mx =
     (if j < stop then
        (let v = mathMax (mathAbs (typedArrayGet d0 j)) (mathAbs (typedArrayGet d1 j)) in
         getPeaks_part d0 d1 (j + 1) stop
           (if ngt v (volume mx) then \<lparr>position = Num j, volume = v\<rparr> else mx))
      else mx)"
  by pat_completeness auto
termination
  by (relation "measure (\<lambda>(d0, d1, j, stop, mx). nat \<lceil>stop - j\<rceil>)") (auto, linarith)

text \<open>The peaks pushed by the first loop of \<open>_getPeaks\<close>, one per part, before any sorting.\<close>

definition getPeaks_loop :: "BeatDetect \<Rightarrow> real list \<Rightarrow> real list \<Rightarrow> Peak list option" where
  "getPeaks_loop cfg d0 d1 =
     forParts (parts cfg d0)
       (\<lambda>i. getPeaks_part d0 d1 (real i * partSize cfg) (real (i + 1) * partSize cfg)
          \<lparr>position = Num 0, volume = Num 0\<rparr>)
       0 []"

definition byVolumeDesc :: "Peak \<Rightarrow> Peak \<Rightarrow> number" where
  "byVolumeDesc a b = nsub (volume b) (volume a)"

definition byPosition :: "Peak \<Rightarrow> Peak \<Rightarrow> number" where
  "byPosition a b = nsub (position a) (position b)"

text \<open>\<open>_getPeaks\<close>, on the two channels \<open>data[0]\<close> and \<open>data[1]\<close>.\<close>

definition getPeaks :: "BeatDetect \<Rightarrow> real list \<Rightarrow> real list \<Rightarrow> Peak list option" where
  "getPeaks cfg d0 d1 =
     (case getPeaks_loop cfg d0 d1 of
        None \<Rightarrow> None
      | Some peaks \<Rightarrow>
          (let loudestFirst = sortArray byVolumeDesc peaks;
               kept = spliceFront (real (length loudestFirst) * 0.5) loudestFirst
           in Some (sortArray byPosition kept)))"

section \<open>Tempo candidates\<close>

text \<open>The two octave-folding loops of \<open>_getIntervals\<close>; \<open>None\<close> when a loop does not end.\<close>

partial_function (option) doubleTempo :: "real \<Rightarrow> number \<Rightarrow> number option" where
  "doubleTempo lo t = (if nle t (Num lo) then doubleTempo lo (nmul t (Num 2)) else Some t)"

partial_function (option) halveTempo :: "real \<Rightarrow> number \<Rightarrow> number option" where
  "halveTempo hi t = (if ngt t (Num hi) then halveTempo hi (ndiv t (Num 2)) else Some t)"

definition foldTempo :: "BeatDetect \<Rightarrow> number \<Rightarrow> number option" where
  "foldTempo cfg t =
     (case doubleTempo (fst (bpmRange cfg)) t of
        None \<Rightarrow> None
      | Some t' \<Rightarrow> halveTempo (snd (bpmRange cfg)) t')"

definition roundTempo :: "BeatDetect \<Rightarrow> number \<Rightarrow> number" where
  "roundTempo cfg t = (if round_opt cfg then mathRound t else floatRound t (float cfg))"

text \<open>
  \<open>groups.some(...)\<close>: the first group with this tempo gets the peak and one more vote.
  The result says whether there was one.
\<close>

fun vote :: "Peak \<Rightarrow> number \<Rightarrow> IntervalGroup list \<Rightarrow> bool \<times> IntervalGroup list" where
  "vote peak t [] = (False, [])"
| "vote peak t (interval # rest) =
     (if strictEq (tempo interval) t
      then (True, interval\<lparr>peaks_g := peaks_g interval @ [peak], count := count interval + 1\<rparr> # rest)
      else (case vote peak t rest of (exists, rest') \<Rightarrow> (exists, interval # rest')))"

text \<open>The tempo of the gap from a peak to a later peak, before it is folded.\<close>

definition rawTempo :: "BeatDetect \<Rightarrow> Peak \<Rightarrow> Peak \<Rightarrow> number" where
  "rawTempo cfg peak later =
     ndiv (Num (60 * sampleRate cfg)) (nsub (position later) (position peak))"

text \<open>
  The group of the folded tempo, rounded as configured, and its vote: the group is pushed
  when no group has its tempo.
\<close>

definition castVote ::
  "BeatDetect \<Rightarrow> Peak \<Rightarrow> number \<Rightarrow> IntervalGroup list \<Rightarrow> IntervalGroup list" where
  "castVote cfg peak folded groups =
     (let group = \<lparr>tempo = roundTempo cfg folded, count = 1, position_g = position peak,
                    peaks_g = []\<rparr>
      in case vote peak (tempo group) groups of
           (exists, groups') \<Rightarrow> if exists then groups' else groups' @ [group])"

text \<open>The loop over \<open>i\<close> for the peak at \<open>index\<close>.\<close>

function getIntervals_peak ::
  "BeatDetect \<Rightarrow> Peak list \<Rightarrow> nat \<Rightarrow> nat \<Rightarrow> IntervalGroup list \<Rightarrow> IntervalGroup list option" where
  "getIntervals_peak cfg peaks index i groups =
     (if index + i < length peaks \<and> i < 10 then
        (case foldTempo cfg (rawTempo cfg (peaks ! index) (peaks ! (index + i))) of
           None \<Rightarrow> None
         | Some folded \<Rightarrow>
             getIntervals_peak cfg peaks index (i + 1)
               (castVote cfg (peaks ! index) folded groups))
      else Some groups)"
  by pat_completeness auto
termination
  by (relation "measure (\<lambda>(cfg, peaks, index, i, groups). 10 - i)") auto

text \<open>\<open>peaks.forEach\<close>, from the peak at \<open>index\<close> on.\<close>

function getIntervals_forEach ::
  "BeatDetect \<Rightarrow> Peak list \<Rightarrow> nat \<Rightarrow> IntervalGroup list \<Rightarrow> IntervalGroup list option" where
  "getIntervals_forEach cfg peaks index groups =
     (if index < length peaks then
        (case getIntervals_peak cfg peaks index 1 groups of
           None \<Rightarrow> None
         | Some groups' \<Rightarrow> getIntervals_forEach cfg peaks (index + 1) groups')
      else Some groups)"
  by pat_completeness auto
termination
  by (relation "measure (\<lambda>(cfg, peaks, index, groups). length peaks - index)") auto

definition getIntervals :: "BeatDetect \<Rightarrow> Peak list \<Rightarrow> IntervalGroup list option" where
  "getIntervals cfg peaks = getIntervals_forEach cfg peaks 0 []"

section \<open>Beat phase\<close>

text \<open>
  The two loops of \<open>_getLowestTimeOffset\<close>; \<open>None\<close> when a loop does not end (a beat
  period that is not positive).
\<close>

partial_function (option) subtractBars :: "number \<Rightarrow> number \<Rightarrow> number \<Rightarrow> number option" where
  "subtractBars bpmTime bar offset' =
     (if nge offset' bpmTime then subtractBars bpmTime bar (nsub offset' bar)
      else Some offset')"

partial_function (option) addBeats :: "number \<Rightarrow> number \<Rightarrow> number option" where
  "addBeats bpmTime offset' =
     (if nlt offset' (Num 0) then addBeats bpmTime (nadd offset' bpmTime) else Some offset')"

definition getLowestTimeOffset :: "BeatDetect \<Rightarrow> number \<Rightarrow> number \<Rightarrow> number option" where
  "getLowestTimeOffset cfg pos bpm =
     (let bpmTime = ndiv (Num 60) bpm;
          firstBeatTime = ndiv pos (Num (sampleRate cfg))
      in case subtractBars bpmTime (nmul bpmTime (Num (timeSignature cfg))) firstBeatTime of
           None \<Rightarrow> None
         | Some offset' \<Rightarrow> if nlt offset' (Num 0) then addBeats bpmTime offset' else Some offset')"

text \<open>The inner loop of \<open>_getOffsets\<close> over the samples \<open>j\<close> of one part of the channel.\<close>

function getOffsets_part ::
  "BeatDetect \<Rightarrow> real list \<Rightarrow> number \<Rightarrow> real \<Rightarrow> real \<Rightarrow> Peak \<Rightarrow> Peak" where
  "getOffsets_part cfg d bpm j stop mx =
     (if j < stop then
        (let v = typedArrayGet d j in
         getOffsets_part cfg d bpm (j + 1) stop
           (if ngt v (volume mx)
            then \<lparr>position =
                    nsub (Num j)
                      (mathRound (nmul (nmul (ndiv (Num 60) bpm) (Num 0.05)) (Num (sampleRate cfg)))),
                  volume = v\<rparr>
            else mx))
      else mx)"
  by pat_completeness auto
termination
  by (relation "measure (\<lambda>(cfg, d, bpm, j, stop, mx). nat \<lceil>stop - j\<rceil>)") (auto, linarith)

text \<open>The peaks pushed by the first loop of \<open>_getOffsets\<close>: \<open>unsortedPeaks\<close>.\<close>

definition getOffsets_loop :: "BeatDetect \<Rightarrow> real list \<Rightarrow> number \<Rightarrow> Peak list option" where
  "getOffsets_loop cfg d bpm =
     forParts (parts cfg d)
       (\<lambda>i. getOffsets_part cfg d bpm (real i * partSize cfg) (real (i + 1) * partSize cfg)
          \<lparr>position = Num 0, volume = Num 0\<rparr>)
       0 []"

text \<open>The test that lets a peak's offset into the mean.\<close>

definition inBand :: "number \<Rightarrow> number \<Rightarrow> bool" where
  "inBand offset' refOffset =
     (nlt (nsub offset' refOffset) (Num 0.05) \<or> ngt (nsub refOffset offset') (Num (- 0.05)))"

text \<open>The loop that sums the offsets in the band: \<open>mean\<close> and \<open>divider\<close>.\<close>

fun getOffsets_mean ::
  "BeatDetect \<Rightarrow> number \<Rightarrow> number \<Rightarrow> Peak list \<Rightarrow> number \<times> nat \<Rightarrow> (number \<times> nat) option" where
  "getOffsets_mean cfg bpm refOffset [] (mean, divider) = Some (mean, divider)"
| "getOffsets_mean cfg bpm refOffset (peak # rest) (mean, divider) =
     (case getLowestTimeOffset cfg (position peak) bpm of
        None \<Rightarrow> None
      | Some offset' \<Rightarrow>
          getOffsets_mean cfg bpm refOffset rest
            (if inBand offset' refOffset then (nadd mean offset', divider + 1)
             else (mean, divider)))"

text \<open>
  \<open>while (unsortedPeaks[i].volume < 0.02) ++i\<close>: the index it stops at. Past the end of
  the array the element is \<open>undefined\<close> and the read of its volume throws.
\<close>

function firstBarIndex :: "Peak list \<Rightarrow> nat \<Rightarrow> error + nat" where
  "firstBarIndex unsortedPeaks i =
     (if i < length unsortedPeaks then
        (if nlt (volume (unsortedPeaks ! i)) (Num 0.02) then firstBarIndex unsortedPeaks (i + 1)
         else Inr i)
      else Inl TypeError)"
  by pat_completeness auto
termination
  by (relation "measure (\<lambda>(unsortedPeaks, i). length unsortedPeaks - i)") auto

text \<open>The rule that replaces the first bar by the mean offset.\<close>

definition clampFirstBar :: "number \<Rightarrow> number \<Rightarrow> number \<Rightarrow> number" where
  "clampFirstBar firstBar' meanOffset bpm =
     (if ngt firstBar' meanOffset \<and> nlt firstBar' (ndiv (Num 60) bpm) then meanOffset
      else firstBar')"

text \<open>\<open>_getOffsets\<close>: \<open>None\<close> when it does not return, \<open>Some (Inl e)\<close> when it throws.\<close>

definition getOffsets :: "BeatDetect \<Rightarrow> real list \<Rightarrow> number \<Rightarrow> (error + Offsets) option" where
  "getOffsets cfg d bpm =
     (case getOffsets_loop cfg d bpm of
        None \<Rightarrow> None
      | Some unsortedPeaks \<Rightarrow>
          (case sortArray byVolumeDesc unsortedPeaks of
             [] \<Rightarrow> Some (Inl TypeError)
           | loudest # others \<Rightarrow>
               (case getLowestTimeOffset cfg (position loudest) bpm of
                  None \<Rightarrow> None
                | Some refOffset \<Rightarrow>
                    (case getOffsets_mean cfg bpm refOffset (loudest # others) (Num 0, 0) of
                       None \<Rightarrow> None
                     | Some (mean, divider) \<Rightarrow>
                         (case firstBarIndex unsortedPeaks 0 of
                            Inl e \<Rightarrow> Some (Inl e)
                          | Inr i \<Rightarrow>
                              (let firstBar' =
                                     ndiv (position (unsortedPeaks ! i)) (Num (sampleRate cfg));
                                   meanOffset = ndiv mean (Num (real divider))
                               in Some (Inr \<lparr>offset = meanOffset,
                                     firstBar = clampFirstBar firstBar' meanOffset bpm\<rparr>)))))))"

section \<open>The analysis of a rendered buffer\<close>

definition byCountDesc :: "IntervalGroup \<Rightarrow> IntervalGroup \<Rightarrow> number" where
  "byCountDesc intA intB = Num (real (count intB) - real (count intA))"

text \<open>
  \<open>_processRenderedBuffer\<close> from the point where the two channels of the rendered buffer
  are read. A throw inside the promise's executor rejects the promise: \<open>Some (Inl e)\<close>;
  \<open>Some (Inr info)\<close> is the resolved value; \<open>None\<close> means the promise is never settled,
  because a loop does not end.
\<close>

definition processRenderedBuffer ::
  "BeatDetect \<Rightarrow> real list \<Rightarrow> real list \<Rightarrow> (error + BeatInfo) option" where
  "processRenderedBuffer cfg dataL dataR =
     (case getPeaks cfg dataL dataR of
        None \<Rightarrow> None
      | Some peaks \<Rightarrow>
          (case getIntervals cfg peaks of
             None \<Rightarrow> None
           | Some groups \<Rightarrow>
               (case spliceFront 5 (sortArray byCountDesc groups) of
                  [] \<Rightarrow> Some (Inl TypeError)
                | top0 # others \<Rightarrow>
                    (case getOffsets cfg dataL (tempo top0) of
                       None \<Rightarrow> None
                     | Some (Inl e) \<Rightarrow> Some (Inl e)
                     | Some (Inr offsets) \<Rightarrow>
                         Some (Inr \<lparr>offset = floatRound (offset offsets) (float cfg),
                                    firstBar = floatRound (firstBar offsets) (float cfg),
                                    bpm_info = tempo top0\<rparr>)))))"

section \<open>Tap tempo\<close>

text \<open>
  The tap state of the class: \<open>count\<close>, the three time stamps \<open>_ts\<close> (values of
  \<open>Date.now()\<close>, in milliseconds) and the pending reset timer. The timer handle
  \<open>_tapResetId\<close> is modelled by the time at which the pending timer is due, \<open>None\<close> when
  no timer is pending.
\<close>

record TapState =
  count_tap :: nat
  ts_current :: int
  ts_previous :: int
  ts_first :: int
  tapReset :: "int option"

definition initialTapState :: TapState where
  "initialTapState = \<lparr>count_tap = 0, ts_current = 0, ts_previous = 0, ts_first = 0,
     tapReset = None\<rparr>"

text \<open>
  \<open>_tapBpm\<close>, run at time \<open>now\<close> with the option \<open>precision\<close>. It returns the new state and
  the arguments of the calls of \<open>options.callback\<close> it made (a number or a string).
\<close>

definition tapBpm :: "nat option \<Rightarrow> int \<Rightarrow> TapState \<Rightarrow> TapState \<times> (number + string) list" where
  "tapBpm precision now s =
     (let s1 = s\<lparr>tapReset := None, ts_current := now\<rparr>;
          s2 = (if ts_first s1 = 0 then s1\<lparr>ts_first := ts_current s1\<rparr> else s1);
          calls =
            (if ts_previous s2 \<noteq> 0 then
               (let bpm = ndiv (Num (60000 * real (count_tap s2)))
                            (Num (real_of_int (ts_current s2 - ts_first s2)))
                in [Inl (case precision of None \<Rightarrow> bpm | Some p \<Rightarrow> floatRound bpm p)])
             else []);
          s3 = s2\<lparr>ts_previous := ts_current s2, count_tap := count_tap s2 + 1,
                  tapReset := Some (now + 5000)\<rparr>
      in (s3, calls))"

text \<open>The function given to \<open>setTimeout\<close>.\<close>

definition tapResetFires :: "TapState \<Rightarrow> TapState \<times> (number + string) list" where
  "tapResetFires s =
     (s\<lparr>count_tap := 0, ts_current := 0, ts_previous := 0, ts_first := 0, tapReset := None\<rparr>,
      [Inr ''--''])"

text \<open>Time passes to \<open>now\<close> with no tap: the pending timer runs if it is due.\<close>

definition elapse :: "int \<Rightarrow> TapState \<Rightarrow> TapState \<times> (number + string) list" where
  "elapse now s =
     (case tapReset s of
        None \<Rightarrow> (s, [])
      | Some due \<Rightarrow> if due \<le> now then tapResetFires s else (s, []))"

text \<open>A click at time \<open>now\<close>: a timer that was due has run before the click is handled.\<close>

definition click :: "nat option \<Rightarrow> int \<Rightarrow> TapState \<Rightarrow> TapState \<times> (number + string) list" where
  "click precision now s =
     (case elapse now s of (s', out) \<Rightarrow>
        (case tapBpm precision now s' of (s'', out') \<Rightarrow> (s'', out @ out')))"

text \<open>A sequence of clicks, and every argument the callback received.\<close>

fun clicks :: "nat option \<Rightarrow> int list \<Rightarrow> TapState \<Rightarrow> TapState \<times> (number + string) list" where
  "clicks precision [] s = (s, [])"
| "clicks precision (now # later) s =
     (case click precision now s of (s', out) \<Rightarrow>
        (case clicks precision later s' of (s'', out') \<Rightarrow> (s'', out @ out')))"

section \<open>Auxiliary definitions\<close>

text \<open>\<open>Number.isFinite\<close>.\<close>

fun isFinite :: "number \<Rightarrow> bool" where
  "isFinite (Num x) = True"
| "isFinite _ = False"

text \<open>The real value of a finite number; used to state that a list is ordered.\<close>

fun realOf :: "number \<Rightarrow> real" where
  "realOf (Num x) = x"
| "realOf _ = 0"

text \<open>
  The default options with a sample rate of 4, so that a part has two samples. Used for
  examples that are traced sample by sample.
\<close>

definition smallRate :: BeatDetect where
  "smallRate = defaults\<lparr>sampleRate := 4\<rparr>"

text \<open>
  The value that claim C8 gives for a tap: \<open>60000 * tapCount / (currentTimestamp -
  firstTapTimestamp)\<close>, rounded when a precision is configured.
\<close>

definition expectedBpm :: "nat option \<Rightarrow> nat \<Rightarrow> int \<Rightarrow> int \<Rightarrow> number" where
  "expectedBpm precision tapCount currentTimestamp firstTapTimestamp =
     (let bpm = ndiv (Num (60000 * real tapCount))
                  (Num (real_of_int (currentTimestamp - firstTapTimestamp)))
      in case precision of None \<Rightarrow> bpm | Some p \<Rightarrow> floatRound bpm p)"

text \<open>Every tap comes less than five seconds after the one before it.\<close>

fun withinIdle :: "int \<Rightarrow> int list \<Rightarrow> bool" where
  "withinIdle previous [] = True"
| "withinIdle previous (now # later) = (now < previous + 5000 \<and> withinIdle now later)"

declare getPeaks_part.simps [simp del]
declare getOffsets_part.simps [simp del]
declare getIntervals_peak.simps [simp del]
declare getIntervals_forEach.simps [simp del]
declare firstBarIndex.simps [simp del]

section \<open>Facts about numbers\<close>

lemma ngt_Num [simp]: "ngt (Num x) (Num y) = (y < x)"
  by (simp add: ngt_def)

lemma nge_Num [simp]: "nge (Num x) (Num y) = (y \<le> x)"
  by (simp add: nge_def)

lemma nsub_Num [simp]: "nsub (Num x) (Num y) = Num (x - y)"
  by (simp add: nsub_def)

lemma ngt_NaN [simp]: "ngt NaN a = False" "ngt a NaN = False"
  by (cases a; simp add: ngt_def)+

lemma isFinite_Num: "isFinite a = (\<exists>x. a = Num x)"
  by (cases a) simp_all


section \<open>Evaluation on concrete inputs\<close>

text \<open>The equations that unfold the loops on a concrete channel or list of peaks.\<close>

lemmas eval_simps =
  getPeaks_loop_def getOffsets_loop_def parts_def forParts.simps smallRate_def defaults_def
  partSize_def
  getPeaks_part.simps getOffsets_part.simps typedArrayGet_def mathMax_def Let_def
  sortArray_def spliceFront_def byVolumeDesc_def byPosition_def firstBarIndex.simps

lemmas tempo_simps =
  getIntervals_def getIntervals_forEach.simps getIntervals_peak.simps rawTempo_def castVote_def
  foldTempo_def doubleTempo.simps halveTempo.simps roundTempo_def floatRound_def strictEq_def
  defaults_def Let_def

section \<open>The band test\<close>

lemma inBand_Num: "inBand (Num a) (Num b) = (a - b < 0.05)"
  by (auto simp: inBand_def)

text \<open>
  Claim C4, as the specification states it, fails in both of its cases. It says that the
  test always holds when \<open>offset \<ge> refOffset\<close>, but an offset one second above the
  reference fails the test. And it says that below the reference the test holds only
  within 0.05, but an offset one second below the reference passes the test.
\<close>

theorem inBand_counterexample:
  "(0::real) \<le> 1 \<and> \<not> inBand (Num 1) (Num 0) \<and>
   (0::real) < 1 \<and> \<not> (1::real) - 0 < 0.05 \<and> inBand (Num 0) (Num 1)"
  by (simp add: inBand_Num)

text \<open>
  Claim C4, amended: the two disjuncts of the test are the same condition, and the test
  holds exactly when \<open>offset - refOffset < 0.05\<close>. The tolerance is one-sided the other way
  round: the test always holds when \<open>offset \<le> refOffset\<close>, and when
  \<open>offset > refOffset\<close> it holds exactly when \<open>offset\<close> is less than 0.05 above
  \<open>refOffset\<close>.
\<close>

theorem inBand_one_sided:
  "(inBand (Num offset') (Num refOffset) \<longleftrightarrow> offset' - refOffset < 0.05) \<and>
   (offset' \<le> refOffset \<longrightarrow> inBand (Num offset') (Num refOffset)) \<and>
   (refOffset < offset' \<longrightarrow>
      (inBand (Num offset') (Num refOffset) \<longleftrightarrow> offset' - refOffset < 0.05))"
proof -
  have test: "inBand (Num offset') (Num refOffset) \<longleftrightarrow> offset' - refOffset < 0.05"
    by (rule inBand_Num)
  moreover have "offset' - refOffset < 0.05" if "offset' \<le> refOffset"
    using that by simp
  ultimately show ?thesis
    by simp
qed

theorem inBand_one_sided_witness:
  "((0::real) \<le> 1 \<and> inBand (Num 0) (Num 1)) \<and>
   ((0::real) < 1 / 100 \<and> inBand (Num (1 / 100)) (Num 0)) \<and>
   ((0::real) < 5 / 100 \<and> \<not> inBand (Num (5 / 100)) (Num 0))"
  using inBand_one_sided [of 0 1] inBand_one_sided [of "1 / 100" 0]
    inBand_one_sided [of "5 / 100" 0]
  by simp

section \<open>The parts of a channel\<close>

lemma real_less_iff_nat_ceiling: "(real i < x) = (i < nat \<lceil>x\<rceil>)"
  by linarith

text \<open>With a finite bound the loop over the parts ends, after \<open>\<lceil>parts\<rceil>\<close> rounds.\<close>

lemma forParts_Num: "forParts (Num x) body i acc = Some (acc @ map body [i..<nat \<lceil>x\<rceil>])"
proof (induction "nat \<lceil>x\<rceil> - i" arbitrary: i acc)
  case 0
  then have stop: "\<not> i < nat \<lceil>x\<rceil>" by arith
  then have "\<not> real i < x" unfolding real_less_iff_nat_ceiling .
  moreover have "[i..<nat \<lceil>x\<rceil>] = []" using stop by (metis upt_rec)
  ultimately show ?case by (subst forParts.simps) simp
next
  case (Suc k)
  then have lt: "i < nat \<lceil>x\<rceil>" by simp
  then have "real i < x" unfolding real_less_iff_nat_ceiling .
  moreover have "k = nat \<lceil>x\<rceil> - Suc i" using Suc.hyps(2) by simp
  ultimately show ?case
    using Suc.hyps(1) [of "Suc i" "acc @ [body i]"] lt
    by (subst forParts.simps) (simp add: upt_conv_Cons)
qed

text \<open>With an infinite bound it does not end.\<close>

lemma forParts_PosInf: "forParts PosInf body i acc = None"
proof -
  have "bound \<noteq> PosInf" if "forParts bound body i acc = Some y" for bound y
    by (rule forParts.raw_induct [where P = "\<lambda>bound body i acc y. bound \<noteq> PosInf", OF _ that])
      (auto split: if_splits)
  then show ?thesis by (cases "forParts PosInf body i acc") auto
qed

lemma parts_Num: "sampleRate cfg \<noteq> 0 \<Longrightarrow> parts cfg d = Num (real (length d) / partSize cfg)"
  by (simp add: parts_def partSize_def)

lemma getPeaks_loop_eq:
  "sampleRate cfg \<noteq> 0 \<Longrightarrow>
   getPeaks_loop cfg d0 d1 =
     Some (map (\<lambda>i. getPeaks_part d0 d1 (real i * partSize cfg) (real (i + 1) * partSize cfg)
                 \<lparr>position = Num 0, volume = Num 0\<rparr>)
            [0..<nat \<lceil>real (length d0) / partSize cfg\<rceil>])"
  by (simp add: getPeaks_loop_def parts_Num forParts_Num)

lemma getOffsets_loop_eq:
  "sampleRate cfg \<noteq> 0 \<Longrightarrow>
   getOffsets_loop cfg d bpm =
     Some (map (\<lambda>i. getOffsets_part cfg d bpm (real i * partSize cfg)
                 (real (i + 1) * partSize cfg) \<lparr>position = Num 0, volume = Num 0\<rparr>)
            [0..<nat \<lceil>real (length d) / partSize cfg\<rceil>])"
  by (simp add: getOffsets_loop_def parts_Num forParts_Num)

text \<open>
  Claim C6, as the specification states it, fails. With the default sample rate a part has
  22050 samples; a channel of 33075 samples (one part and a half) gives two peaks, not
  \<open>\<lfloor>33075 / 22050\<rfloor> = 1\<close>.
\<close>

theorem parts_counterexample:
  "map_option length (getPeaks_loop defaults (replicate 33075 0) (replicate 33075 0)) = Some 2 \<and>
   nat \<lfloor>real (length (replicate 33075 (0::real))) / partSize defaults\<rfloor> = 1"
  by (simp add: getPeaks_loop_eq defaults_def partSize_def)

text \<open>
  Claim C6, amended: for a positive sample rate and a channel of length \<open>L\<close>, with
  \<open>w = sampleRate / 2\<close>, the peak extractor pushes exactly \<open>\<lceil>L / w\<rceil>\<close> peaks: one per
  complete part and one more for the trailing partial part when \<open>L\<close> is not a multiple of
  \<open>w\<close>. The scan of the single channel in \<open>_getOffsets\<close> pushes the same number.
\<close>

theorem parts_count:
  assumes "0 < sampleRate cfg"
  shows "(\<exists>peaks. getPeaks_loop cfg d0 d1 = Some peaks \<and>
            length peaks = nat \<lceil>real (length d0) / partSize cfg\<rceil>) \<and>
         (\<exists>peaks. getOffsets_loop cfg d bpm = Some peaks \<and>
            length peaks = nat \<lceil>real (length d) / partSize cfg\<rceil>)"
  using assms by (simp add: getPeaks_loop_eq getOffsets_loop_eq)

theorem parts_count_witness:
  "0 < sampleRate defaults \<and>
   (\<exists>peaks. getPeaks_loop defaults (replicate 33075 0) (replicate 33075 0) = Some peaks \<and>
      length peaks = 2) \<and>
   (\<exists>peaks. getOffsets_loop defaults (replicate 44100 0) (Num 120) = Some peaks \<and>
      length peaks = 2)"
proof -
  have rate: "0 < sampleRate defaults" by (simp add: defaults_def)
  show ?thesis
    using rate
      parts_count [OF rate, of "replicate 33075 0" "replicate 33075 0" "replicate 44100 0" "Num 120"]
    by (simp add: defaults_def partSize_def)
qed

section \<open>A silent buffer\<close>

lemma typedArrayGet_cases:
  "typedArrayGet d j = NaN \<or> (\<exists>x\<in>set d. typedArrayGet d j = Num x)"
proof (cases "j = of_int \<lfloor>j\<rfloor> \<and> 0 \<le> j \<and> j < real (length d)")
  case True
  then have "nat \<lfloor>j\<rfloor> < length d" by linarith
  then have "d ! nat \<lfloor>j\<rfloor> \<in> set d" by simp
  with True show ?thesis by (auto simp: typedArrayGet_def)
next
  case False
  then show ?thesis by (auto simp: typedArrayGet_def)
qed

lemma typedArrayGet_silent:
  "\<forall>x\<in>set d. x = 0 \<Longrightarrow> typedArrayGet d j = NaN \<or> typedArrayGet d j = Num 0"
  using typedArrayGet_cases [of d j] by auto

text \<open>No sample of a silent part is louder than the initial \<open>max\<close>, which is returned.\<close>

lemma getPeaks_part_silent:
  "\<forall>x\<in>set d0. x = 0 \<Longrightarrow> \<forall>x\<in>set d1. x = 0 \<Longrightarrow> volume mx = Num 0 \<Longrightarrow>
   getPeaks_part d0 d1 j stop mx = mx"
proof (induction d0 d1 j stop mx rule: getPeaks_part.induct)
  case (1 d0 d1 j stop mx)
  show ?case
  proof (cases "j < stop")
    case True
    have "\<not> ngt (mathMax (mathAbs (typedArrayGet d0 j)) (mathAbs (typedArrayGet d1 j))) (volume mx)"
      using typedArrayGet_silent [OF "1.prems"(1), of j] typedArrayGet_silent [OF "1.prems"(2), of j]
        "1.prems"(3)
      by (auto simp: mathMax_def)
    then show ?thesis
      using True "1.IH" [OF True refl] "1.prems"
      by (subst getPeaks_part.simps) (simp add: Let_def)
  next
    case False
    then show ?thesis by (subst getPeaks_part.simps) simp
  qed
qed

lemma getPeaks_loop_silent:
  assumes "0 < sampleRate cfg"
  shows "getPeaks_loop cfg (replicate n 0) (replicate m 0) =
           Some (replicate (nat \<lceil>real n / partSize cfg\<rceil>) \<lparr>position = Num 0, volume = Num 0\<rparr>)"
  using assms by (simp add: getPeaks_loop_eq getPeaks_part_silent map_replicate_const)

lemma getOffsets_part_silent:
  "\<forall>x\<in>set d. x = 0 \<Longrightarrow> volume mx = Num 0 \<Longrightarrow> getOffsets_part cfg d bpm j stop mx = mx"
proof (induction cfg d bpm j stop mx rule: getOffsets_part.induct)
  case (1 cfg d bpm j stop mx)
  show ?case
  proof (cases "j < stop")
    case True
    have "\<not> ngt (typedArrayGet d j) (volume mx)"
      using typedArrayGet_silent [OF "1.prems"(1), of j] "1.prems"(2) by auto
    then show ?thesis
      using True "1.IH" [OF True refl] "1.prems"
      by (subst getOffsets_part.simps) (simp add: Let_def)
  next
    case False
    then show ?thesis by (subst getOffsets_part.simps) simp
  qed
qed

lemma getOffsets_loop_silent:
  assumes "0 < sampleRate cfg"
  shows "getOffsets_loop cfg (replicate n 0) bpm =
           Some (replicate (nat \<lceil>real n / partSize cfg\<rceil>) \<lparr>position = Num 0, volume = Num 0\<rparr>)"
  using assms by (simp add: getOffsets_loop_eq getOffsets_part_silent map_replicate_const)

lemma floor_half: "nat \<lfloor>real n * 0.5\<rfloor> = n div 2"
proof -
  have "real n * 0.5 = real n / real 2" by simp
  then show ?thesis by (simp only: floor_divide_of_nat_eq nat_int)
qed

lemma spliceFront_half: "spliceFront (real n * 0.5) xs = take (n div 2) xs"
  unfolding spliceFront_def floor_half ..

lemma spliceFront_half': "spliceFront (real n / 2) xs = take (n div 2) xs"
  using spliceFront_half [of n xs] by simp

lemma sortArray_replicate:
  "\<not> ngt (cmp z z) (Num 0) \<Longrightarrow> sortArray cmp (replicate n z) = replicate n z"
proof (induction n)
  case 0
  then show ?case by (simp add: sortArray_def)
next
  case (Suc n)
  then have "sortArray cmp (replicate (Suc n) z) = insertBy cmp z (replicate n z)"
    by (simp add: sortArray_def)
  also have "\<dots> = replicate (Suc n) z" using Suc.prems by (cases n) simp_all
  finally show ?case .
qed

lemma getPeaks_silent:
  assumes "0 < sampleRate cfg"
  shows "getPeaks cfg (replicate n 0) (replicate m 0) =
           Some (replicate (nat \<lceil>real n / partSize cfg\<rceil> div 2)
                  \<lparr>position = Num 0, volume = Num 0\<rparr>)"
  using assms
  by (simp add: getPeaks_def getPeaks_loop_silent sortArray_replicate byVolumeDesc_def
      byPosition_def spliceFront_half' Let_def min_def)

text \<open>An infinite tempo stays infinite when it is halved: the second loop does not end.\<close>

lemma halveTempo_PosInf: "halveTempo hi PosInf = None"
proof -
  have "t \<noteq> PosInf" if "halveTempo hi t = Some y" for t y
    by (rule halveTempo.raw_induct [where P = "\<lambda>hi t y. t \<noteq> PosInf", OF _ that])
      (fastforce split: if_splits simp: ngt_def)
  then show ?thesis by (cases "halveTempo hi PosInf") auto
qed

lemma doubleTempo_PosInf: "doubleTempo lo PosInf = Some PosInf"
  by (subst doubleTempo.simps) simp

lemma foldTempo_PosInf: "foldTempo cfg PosInf = None"
  by (simp add: foldTempo_def doubleTempo_PosInf halveTempo_PosInf)

lemma getIntervals_same_position:
  assumes "0 < sampleRate cfg" "2 \<le> length peaks"
    and "position (peaks ! 0) = Num x" "position (peaks ! 1) = Num x"
  shows "getIntervals cfg peaks = None"
proof -
  have "getIntervals_peak cfg peaks 0 1 [] = None"
    using assms by (subst getIntervals_peak.simps) (simp add: rawTempo_def foldTempo_PosInf)
  then show ?thesis
    using assms(2) by (auto simp add: getIntervals_def getIntervals_forEach.simps)
qed

lemma processRenderedBuffer_silent:
  assumes "0 < sampleRate cfg" "4 \<le> nat \<lceil>real n / partSize cfg\<rceil>"
  shows "processRenderedBuffer cfg (replicate n 0) (replicate m 0) = None"
proof -
  let ?k = "nat \<lceil>real n / partSize cfg\<rceil> div 2"
  let ?z = "\<lparr>position = Num 0, volume = Num 0\<rparr>"
  have "2 \<le> ?k" using assms(2) by simp
  then have "getIntervals cfg (replicate ?k ?z) = None"
    by (intro getIntervals_same_position [OF assms(1), where x = 0]) simp_all
  then show ?thesis
    by (simp add: processRenderedBuffer_def getPeaks_silent [OF assms(1)])
qed

text \<open>
  A silent buffer of fewer than four parts leaves at most one peak and no group: the
  read of \<open>top[0].tempo\<close> throws, and the promise is rejected.
\<close>

lemma getIntervals_short: "length peaks \<le> 1 \<Longrightarrow> getIntervals cfg peaks = Some []"
proof (cases peaks)
  case Nil
  then show ?thesis by (simp add: getIntervals_def getIntervals_forEach.simps)
next
  case (Cons p rest)
  assume "length peaks \<le> 1"
  with Cons have "peaks = [p]" by simp
  then show ?thesis
    by (simp add: getIntervals_def getIntervals_forEach.simps getIntervals_peak.simps)
qed

lemma processRenderedBuffer_silent_short:
  assumes "0 < sampleRate cfg" "nat \<lceil>real n / partSize cfg\<rceil> < 4"
  shows "processRenderedBuffer cfg (replicate n 0) (replicate m 0) = Some (Inl TypeError)"
proof -
  let ?k = "nat \<lceil>real n / partSize cfg\<rceil> div 2"
  let ?z = "\<lparr>position = Num 0, volume = Num 0\<rparr>"
  have "?k \<le> 1" using assms(2) by simp
  then have "getIntervals cfg (replicate ?k ?z) = Some []"
    by (intro getIntervals_short) simp
  then show ?thesis
    by (simp add: processRenderedBuffer_def getPeaks_silent [OF assms(1)] sortArray_def
        spliceFront_def)
qed

text \<open>
  Claim C7 says that on a silent buffer the peak of every part has volume 0 and sits at
  the first sample of its part. The code does not do this. \<open>max\<close> starts as the peak at
  position 0 with volume 0, no sample is louder, and the test \<open>!max\<close> that would take
  the first sample of the part never holds. With the default sample rate, two seconds of
  silence have four parts, which start at the samples 0, 22050, 44100 and 66150; all four
  peaks are at position 0.
\<close>

theorem silent_peaks_at_zero:
  "getPeaks_loop defaults (replicate 88200 0) (replicate 88200 0) =
     Some (replicate 4 \<lparr>position = Num 0, volume = Num 0\<rparr>)"
proof -
  have "0 < sampleRate defaults" by (simp add: defaults_def)
  then show ?thesis
    by (simp add: getPeaks_loop_silent) (simp add: defaults_def partSize_def)
qed

text \<open>
  Claim C2 says that on a silent buffer the caller receives a failure. On two seconds of
  silence at the default sample rate the caller receives nothing: the two peaks that are
  kept are both at position 0, the raw tempo between them is infinite, and the halving
  loop of \<open>_getIntervals\<close> does not end, so the promise is never settled. The same holds
  for every silent buffer of four parts or more (\<open>processRenderedBuffer_silent\<close>).
\<close>

theorem silent_buffer_never_settles:
  "processRenderedBuffer defaults (replicate 88200 0) (replicate 88200 0) = None"
proof -
  have rate: "0 < sampleRate defaults"
    by (simp add: defaults_def)
  have four: "4 \<le> nat \<lceil>real 88200 / partSize defaults\<rceil>"
    by (simp add: defaults_def partSize_def)
  show ?thesis
    by (rule processRenderedBuffer_silent [OF rate four])
qed

section \<open>The peaks are finite\<close>

lemma mathMax_abs_cases:
  "mathMax (mathAbs (typedArrayGet d0 j)) (mathAbs (typedArrayGet d1 j)) = NaN \<or>
   (\<exists>v. mathMax (mathAbs (typedArrayGet d0 j)) (mathAbs (typedArrayGet d1 j)) = Num v)"
  using typedArrayGet_cases [of d0 j] typedArrayGet_cases [of d1 j]
  by (auto simp: mathMax_def)

lemma getPeaks_part_finite:
  "(\<exists>x. position mx = Num x) \<and> (\<exists>v. volume mx = Num v) \<Longrightarrow>
   (\<exists>x. position (getPeaks_part d0 d1 j stop mx) = Num x) \<and>
   (\<exists>v. volume (getPeaks_part d0 d1 j stop mx) = Num v)"
proof (induction d0 d1 j stop mx rule: getPeaks_part.induct)
  case (1 d0 d1 j stop mx)
  show ?case
  proof (cases "j < stop")
    case True
    let ?v = "mathMax (mathAbs (typedArrayGet d0 j)) (mathAbs (typedArrayGet d1 j))"
    let ?mx = "if ngt ?v (volume mx) then \<lparr>position = Num j, volume = ?v\<rparr> else mx"
    have "(\<exists>x. position ?mx = Num x) \<and> (\<exists>v. volume ?mx = Num v)"
      using mathMax_abs_cases [of d0 j d1] "1.prems" by auto
    from "1.IH" [OF True refl this] True show ?thesis
      by (subst (1 2) getPeaks_part.simps) (simp add: Let_def)
  next
    case False
    with "1.prems" show ?thesis by (subst (1 2) getPeaks_part.simps) simp
  qed
qed

lemma getOffsets_part_finite:
  "\<exists>v. volume mx = Num v \<Longrightarrow> \<exists>v. volume (getOffsets_part cfg d bpm j stop mx) = Num v"
proof (induction cfg d bpm j stop mx rule: getOffsets_part.induct)
  case (1 cfg d bpm j stop mx)
  show ?case
  proof (cases "j < stop")
    case True
    let ?v = "typedArrayGet d j"
    let ?mx = "if ngt ?v (volume mx)
      then \<lparr>position = nsub (Num j)
               (mathRound (nmul (nmul (ndiv (Num 60) bpm) (Num 0.05)) (Num (sampleRate cfg)))),
             volume = ?v\<rparr>
      else mx"
    have "\<exists>v. volume ?mx = Num v"
      using typedArrayGet_cases [of d j] "1.prems" by auto
    from "1.IH" [OF True refl this] True show ?thesis
      by (subst getOffsets_part.simps) (simp add: Let_def)
  next
    case False
    with "1.prems" show ?thesis by (subst getOffsets_part.simps) simp
  qed
qed

lemma forParts_range:
  assumes "forParts bound body i acc = Some ps"
  shows "set ps \<subseteq> set acc \<union> range body"
  by (rule forParts.raw_induct
      [where P = "\<lambda>bound body i acc ps. set ps \<subseteq> set acc \<union> range body", OF _ assms])
    (fastforce split: if_splits)

lemma getOffsets_loop_finite:
  assumes "getOffsets_loop cfg d bpm = Some ps" "p \<in> set ps"
  shows "\<exists>v. volume p = Num v"
proof -
  from forParts_range [OF assms(1) [unfolded getOffsets_loop_def]] assms(2)
  obtain i where "p = getOffsets_part cfg d bpm (real i * partSize cfg) (real (i + 1) * partSize cfg)
      \<lparr>position = Num 0, volume = Num 0\<rparr>"
    by auto
  then show ?thesis using getOffsets_part_finite [of "\<lparr>position = Num 0, volume = Num 0\<rparr>"] by simp
qed

section \<open>Sorting\<close>

lemma length_insertBy [simp]: "length (insertBy cmp x ys) = Suc (length ys)"
  by (induction ys) simp_all

lemma length_sortArray [simp]: "length (sortArray cmp xs) = length xs"
  by (induction xs) (simp_all add: sortArray_def)

text \<open>
  When the comparison function is the difference of a real key, the sort is the stable
  sort by that key.
\<close>

lemma insertBy_insort_key:
  "\<forall>y\<in>set ys. cmp x y = Num (key x - key y) \<Longrightarrow> insertBy cmp x ys = insort_key key x ys"
  by (induction ys) auto

lemma sortArray_sort_key:
  "\<forall>x\<in>set xs. \<forall>y\<in>set xs. cmp x y = Num (key x - key y) \<Longrightarrow>
   sortArray cmp xs = sort_key key xs"
proof (induction xs)
  case Nil
  then show ?case by (simp add: sortArray_def)
next
  case (Cons x xs)
  then have "sortArray cmp xs = sort_key key xs" by simp
  moreover have "sortArray cmp (x # xs) = insertBy cmp x (sortArray cmp xs)"
    by (simp add: sortArray_def)
  moreover have "\<forall>y\<in>set (sort_key key xs). cmp x y = Num (key x - key y)"
    using Cons.prems by simp
  ultimately show ?case by (simp add: insertBy_insort_key)
qed

lemma getPeaks_loop_finite:
  assumes "getPeaks_loop cfg d0 d1 = Some ps" "p \<in> set ps"
  shows "(\<exists>x. position p = Num x) \<and> (\<exists>v. volume p = Num v)"
proof -
  from forParts_range [OF assms(1) [unfolded getPeaks_loop_def]] assms(2)
  obtain i where "p = getPeaks_part d0 d1 (real i * partSize cfg) (real (i + 1) * partSize cfg)
      \<lparr>position = Num 0, volume = Num 0\<rparr>"
    by auto
  then show ?thesis
    using getPeaks_part_finite [of "\<lparr>position = Num 0, volume = Num 0\<rparr>"] by simp
qed

section \<open>The first-bar scan\<close>

lemma firstBarIndex_Inr:
  "firstBarIndex ps i = Inr k \<Longrightarrow>
     i \<le> k \<and> k < length ps \<and> \<not> nlt (volume (ps ! k)) (Num 0.02)"
proof (induction ps i rule: firstBarIndex.induct)
  case (1 ps i)
  from "1.prems" show ?case
    by (subst (asm) firstBarIndex.simps) (use "1.IH" in \<open>fastforce split: if_splits\<close>)
qed

lemma firstBarIndex_Inl:
  "(firstBarIndex ps i = Inl e) =
     (\<forall>m. i \<le> m \<and> m < length ps \<longrightarrow> nlt (volume (ps ! m)) (Num 0.02))"
proof (induction ps i rule: firstBarIndex.induct)
  case (1 ps i)
  show ?case
  proof (cases "i < length ps \<and> nlt (volume (ps ! i)) (Num 0.02)")
    case True
    then have "firstBarIndex ps i = firstBarIndex ps (i + 1)"
      by (subst firstBarIndex.simps) simp
    moreover have "(\<forall>m. i \<le> m \<and> m < length ps \<longrightarrow> nlt (volume (ps ! m)) (Num 0.02)) =
        (\<forall>m. i + 1 \<le> m \<and> m < length ps \<longrightarrow> nlt (volume (ps ! m)) (Num 0.02))"
      using True by (metis Suc_eq_plus1 Suc_leI le_neq_implies_less Suc_leD)
    ultimately show ?thesis using "1.IH" True by simp
  next
    case False
    then show ?thesis
      by (subst firstBarIndex.simps) (cases e; auto)
  qed
qed

text \<open>
  Claim C10: the scan \<open>while (unsortedPeaks[i].volume < 0.02) ++i\<close> over the peaks pushed
  by the first loop of \<open>_getOffsets\<close> stops at an index inside the array if and only if
  some peak has a volume of at least 0.02. When every volume is below 0.02 the scan runs
  past the end, where the read of the volume throws, so that \<open>_getOffsets\<close> returns no
  offsets.
\<close>

theorem firstBar_scan_bounds:
  assumes "getOffsets_loop cfg d bpm = Some unsortedPeaks"
  shows "((\<exists>i. firstBarIndex unsortedPeaks 0 = Inr i \<and> i < length unsortedPeaks) \<longleftrightarrow>
            (\<exists>peak\<in>set unsortedPeaks. nge (volume peak) (Num 0.02))) \<and>
         ((\<forall>peak\<in>set unsortedPeaks. nlt (volume peak) (Num 0.02)) \<longrightarrow>
            firstBarIndex unsortedPeaks 0 = Inl TypeError \<and>
            (\<forall>r. getOffsets cfg d bpm \<noteq> Some (Inr r)))"
proof -
  have fin: "\<exists>v. volume p = Num v" if "p \<in> set unsortedPeaks" for p
    using getOffsets_loop_finite [OF assms that] .
  have loud: "nge (volume p) (Num 0.02) = (\<not> nlt (volume p) (Num 0.02))"
    if "p \<in> set unsortedPeaks" for p
    using fin [OF that] by auto
  have "(\<exists>i. firstBarIndex unsortedPeaks 0 = Inr i \<and> i < length unsortedPeaks) \<longleftrightarrow>
        (\<exists>peak\<in>set unsortedPeaks. nge (volume peak) (Num 0.02))"
  proof
    assume "\<exists>i. firstBarIndex unsortedPeaks 0 = Inr i \<and> i < length unsortedPeaks"
    then obtain i where i: "firstBarIndex unsortedPeaks 0 = Inr i" by blast
    from firstBarIndex_Inr [OF i] have "i < length unsortedPeaks"
      and "\<not> nlt (volume (unsortedPeaks ! i)) (Num 0.02)" by simp_all
    then show "\<exists>peak\<in>set unsortedPeaks. nge (volume peak) (Num 0.02)"
      using loud [of "unsortedPeaks ! i"] by (metis nth_mem)
  next
    assume "\<exists>peak\<in>set unsortedPeaks. nge (volume peak) (Num 0.02)"
    then obtain m where m: "m < length unsortedPeaks"
      and "\<not> nlt (volume (unsortedPeaks ! m)) (Num 0.02)"
      using loud by (metis in_set_conv_nth)
    then have "firstBarIndex unsortedPeaks 0 \<noteq> Inl TypeError"
      unfolding firstBarIndex_Inl by auto
    then obtain i where i: "firstBarIndex unsortedPeaks 0 = Inr i"
      by (cases "firstBarIndex unsortedPeaks 0") (auto, metis error.exhaust)
    with firstBarIndex_Inr [OF i]
    show "\<exists>i. firstBarIndex unsortedPeaks 0 = Inr i \<and> i < length unsortedPeaks" by simp
  qed
  moreover have "firstBarIndex unsortedPeaks 0 = Inl TypeError \<and>
      (\<forall>r. getOffsets cfg d bpm \<noteq> Some (Inr r))"
    if quiet: "\<forall>peak\<in>set unsortedPeaks. nlt (volume peak) (Num 0.02)"
  proof -
    have scan: "firstBarIndex unsortedPeaks 0 = Inl TypeError"
      unfolding firstBarIndex_Inl using quiet by simp
    then have "getOffsets cfg d bpm \<noteq> Some (Inr r)" for r
      using assms
      by (auto simp: getOffsets_def split: option.splits list.splits prod.splits)
    with scan show ?thesis by simp
  qed
  ultimately show ?thesis by blast
qed

theorem firstBar_scan_bounds_witness:
  "getOffsets_loop smallRate [0, 0, 0, 0, 1, 0, 0, 0] (Num 120) =
     Some [\<lparr>position = Num 0, volume = Num 0\<rparr>, \<lparr>position = Num 0, volume = Num 0\<rparr>,
           \<lparr>position = Num 4, volume = Num 1\<rparr>, \<lparr>position = Num 0, volume = Num 0\<rparr>] \<and>
   firstBarIndex [\<lparr>position = Num 0, volume = Num 0\<rparr>, \<lparr>position = Num 0, volume = Num 0\<rparr>,
           \<lparr>position = Num 4, volume = Num 1\<rparr>, \<lparr>position = Num 0, volume = Num 0\<rparr>] 0 = Inr 2 \<and>
   getOffsets_loop defaults (replicate 44100 0) (Num 120) =
     Some (replicate 2 \<lparr>position = Num 0, volume = Num 0\<rparr>) \<and>
   firstBarIndex (replicate 2 \<lparr>position = Num 0, volume = Num 0\<rparr>) 0 = Inl TypeError"
proof -
  let ?ps = "[\<lparr>position = Num 0, volume = Num 0\<rparr>, \<lparr>position = Num 0, volume = Num 0\<rparr>,
           \<lparr>position = Num 4, volume = Num 1\<rparr>, \<lparr>position = Num 0, volume = Num 0\<rparr>]"
  have loud: "getOffsets_loop smallRate [0, 0, 0, 0, 1, 0, 0, 0] (Num 120) = Some ?ps"
    by (simp add: eval_simps)
  have rate: "0 < sampleRate defaults" by (simp add: defaults_def)
  have quiet: "getOffsets_loop defaults (replicate 44100 0) (Num 120) =
     Some (replicate 2 \<lparr>position = Num 0, volume = Num 0\<rparr>)"
    by (simp add: getOffsets_loop_silent [OF rate]) (simp add: defaults_def partSize_def)
  have "\<exists>peak\<in>set ?ps. nge (volume peak) (Num 0.02)" by simp
  with firstBar_scan_bounds [OF loud] obtain i where "firstBarIndex ?ps 0 = Inr i" by blast
  moreover have "firstBarIndex ?ps 0 = Inr 2" by (simp add: firstBarIndex.simps)
  moreover have "firstBarIndex (replicate 2 \<lparr>position = Num 0, volume = Num 0\<rparr>) 0 = Inl TypeError"
    using firstBar_scan_bounds [OF quiet] by simp
  ultimately show ?thesis using loud quiet by simp
qed

section \<open>The half that is kept\<close>

text \<open>
  Claim C5, as the specification states it, fails: nothing keeps a peak when the half
  rounds down to zero. With the default sample rate a buffer of 22050 samples (half a
  second) has one part and one peak, and \<open>_getPeaks\<close> returns no peak.
\<close>

theorem keep_none_counterexample:
  "map_option length (getPeaks_loop defaults (replicate 22050 1) (replicate 22050 1)) = Some 1 \<and>
   getPeaks defaults (replicate 22050 1) (replicate 22050 1) = Some []"
  by (simp add: getPeaks_def getPeaks_loop_eq defaults_def partSize_def sortArray_def
      spliceFront_def Let_def)

text \<open>
  Claim C5, amended: for a positive sample rate, of the \<open>n\<close> peaks pushed \<open>_getPeaks\<close>
  keeps exactly \<open>\<lfloor>n / 2\<rfloor>\<close> (none when \<open>n = 1\<close>). No peak that is dropped is louder than
  a peak that is kept, and the kept peaks are returned in ascending order of position.
\<close>

theorem kept_half:
  assumes "0 < sampleRate cfg"
  shows "\<exists>pushed kept dropped.
     getPeaks_loop cfg d0 d1 = Some pushed \<and> getPeaks cfg d0 d1 = Some kept \<and>
     length kept = length pushed div 2 \<and>
     mset pushed = mset kept + mset dropped \<and>
     (\<forall>a\<in>set kept. \<forall>b\<in>set dropped. nle (volume b) (volume a)) \<and>
     sorted_wrt (\<lambda>a b. nle (position a) (position b)) kept"
proof -
  obtain pushed where pushed: "getPeaks_loop cfg d0 d1 = Some pushed"
    using assms by (simp add: getPeaks_loop_eq)
  define vkey where "vkey = (\<lambda>p::Peak. - realOf (volume p))"
  define pkey where "pkey = (\<lambda>p::Peak. realOf (position p))"
  have fin: "position p = Num (pkey p) \<and> volume p = Num (- vkey p)" if "p \<in> set pushed" for p
    using getPeaks_loop_finite [OF pushed that] by (auto simp: vkey_def pkey_def)
  define s where "s = sortArray byVolumeDesc pushed"
  have s: "s = sort_key vkey pushed"
    unfolding s_def by (rule sortArray_sort_key) (simp add: byVolumeDesc_def fin)
  define k where "k = take (length pushed div 2) s"
  define dropped where "dropped = drop (length pushed div 2) s"
  define kept where "kept = sortArray byPosition k"
  have sub: "set k \<subseteq> set pushed"
    unfolding k_def s by (metis set_take_subset set_sort)
  have kept: "kept = sort_key pkey k"
    unfolding kept_def
  proof (rule sortArray_sort_key, intro ballI)
    fix x y assume "x \<in> set k" "y \<in> set k"
    with sub have "x \<in> set pushed" "y \<in> set pushed" by auto
    then show "byPosition x y = Num (pkey x - pkey y)"
      using fin [of x] fin [of y] by (simp add: byPosition_def)
  qed
  have res: "getPeaks cfg d0 d1 = Some kept"
    by (simp add: getPeaks_def pushed Let_def spliceFront_half' kept_def k_def s_def)
  have len: "length kept = length pushed div 2"
    by (simp add: kept k_def s)
  have "mset pushed = mset s" by (simp add: s)
  also have "\<dots> = mset (k @ dropped)" by (simp add: k_def dropped_def)
  finally have ms: "mset pushed = mset kept + mset dropped" by (simp add: kept)
  have "sorted (map vkey (k @ dropped))"
    unfolding k_def dropped_def s by simp
  then have order: "\<forall>a\<in>set k. \<forall>b\<in>set dropped. vkey a \<le> vkey b"
    by (auto simp: sorted_append)
  have sub': "set dropped \<subseteq> set pushed"
    unfolding dropped_def s by (metis set_drop_subset set_sort)
  have loud: "\<forall>a\<in>set kept. \<forall>b\<in>set dropped. nle (volume b) (volume a)"
  proof (intro ballI)
    fix a b assume a: "a \<in> set kept" and b: "b \<in> set dropped"
    from a have ak: "a \<in> set k" by (simp add: kept)
    with order b have "vkey a \<le> vkey b" by blast
    moreover have "volume a = Num (- vkey a)" using fin [of a] ak sub by blast
    moreover have "volume b = Num (- vkey b)" using fin [of b] b sub' by blast
    ultimately show "nle (volume b) (volume a)" by simp
  qed
  have "sorted (map pkey kept)" unfolding kept by simp
  then have "sorted_wrt (\<lambda>a b. pkey a \<le> pkey b) kept"
    by (simp add: sorted_map)
  then have "sorted_wrt (\<lambda>a b. nle (position a) (position b)) kept"
  proof (rule sorted_wrt_mono_rel [rotated])
    fix a b assume "a \<in> set kept" "b \<in> set kept" "pkey a \<le> pkey b"
    then show "nle (position a) (position b)"
      using fin [of a] fin [of b] sub unfolding kept by (metis nle.simps(1) set_sort subsetD)
  qed
  with pushed res len ms loud show ?thesis by blast
qed

theorem kept_half_witness:
  "0 < sampleRate smallRate \<and>
   getPeaks_loop smallRate [0.1, 0, 0.5, 0.2, 0, 0.9, 0.3, 0] [0.1, 0, 0.5, 0.2, 0, 0.9, 0.3, 0] =
     Some [\<lparr>position = Num 0, volume = Num 0.1\<rparr>, \<lparr>position = Num 2, volume = Num 0.5\<rparr>,
           \<lparr>position = Num 5, volume = Num 0.9\<rparr>, \<lparr>position = Num 6, volume = Num 0.3\<rparr>] \<and>
   getPeaks smallRate [0.1, 0, 0.5, 0.2, 0, 0.9, 0.3, 0] [0.1, 0, 0.5, 0.2, 0, 0.9, 0.3, 0] =
     Some [\<lparr>position = Num 2, volume = Num 0.5\<rparr>, \<lparr>position = Num 5, volume = Num 0.9\<rparr>]"
proof -
  have rate: "0 < sampleRate smallRate" by (simp add: smallRate_def defaults_def)
  show ?thesis
    using rate
      kept_half [OF rate, of "[0.1, 0, 0.5, 0.2, 0, 0.9, 0.3, 0]" "[0.1, 0, 0.5, 0.2, 0, 0.9, 0.3, 0]"]
    by (simp add: getPeaks_def eval_simps)
qed

section \<open>The first bar\<close>





section \<open>Tap sessions\<close>

lemma click_in_session:
  assumes "ts_previous s \<noteq> 0" "ts_first s \<noteq> 0" "tapReset s = Some (ts_previous s + 5000)"
    and "now < ts_previous s + 5000"
  shows "click precision now s =
    (s\<lparr>tapReset := Some (now + 5000), ts_current := now, ts_previous := now,
        count_tap := count_tap s + 1\<rparr>,
     [Inl (expectedBpm precision (count_tap s) now (ts_first s))])"
  using assms
  by (simp add: click_def elapse_def tapBpm_def expectedBpm_def Let_def)

lemma upt_shift: "[c..<Suc (c + n)] = c # [Suc c..<Suc (c + n)]"
  by (simp add: upt_conv_Cons del: upt_Suc)

lemma clicks_in_session:
  assumes "ts_previous s \<noteq> 0" "ts_first s \<noteq> 0" "tapReset s = Some (ts_previous s + 5000)"
    and "\<forall>t\<in>set later. t \<noteq> 0" "withinIdle (ts_previous s) later"
  shows "snd (clicks precision later s) =
           map (\<lambda>(k, t). Inl (expectedBpm precision k t (ts_first s)))
             (zip [count_tap s..<count_tap s + length later] later) \<and>
         ts_previous (fst (clicks precision later s)) = last (ts_previous s # later) \<and>
         tapReset (fst (clicks precision later s)) = Some (last (ts_previous s # later) + 5000)"
  using assms
proof (induction later arbitrary: s)
  case Nil
  then show ?case by simp
next
  case (Cons now later)
  let ?s = "s\<lparr>tapReset := Some (now + 5000), ts_current := now, ts_previous := now,
        count_tap := count_tap s + 1\<rparr>"
  have step: "click precision now s = (?s, [Inl (expectedBpm precision (count_tap s) now (ts_first s))])"
    using Cons.prems by (intro click_in_session) simp_all
  have "snd (clicks precision later ?s) =
           map (\<lambda>(k, t). Inl (expectedBpm precision k t (ts_first ?s)))
             (zip [count_tap ?s..<count_tap ?s + length later] later) \<and>
         ts_previous (fst (clicks precision later ?s)) = last (ts_previous ?s # later) \<and>
         tapReset (fst (clicks precision later ?s)) = Some (last (ts_previous ?s # later) + 5000)"
    using Cons.prems by (intro Cons.IH) simp_all
  moreover obtain s' out where run: "clicks precision later ?s = (s', out)" by fastforce
  ultimately show ?case
    using step by (simp add: upt_shift del: upt_Suc)
qed

lemma floatRound_int: "floatRound (Num (of_int z)) p = Num (of_int z)"
proof -
  have "\<lfloor>of_int z * (10::real) ^ p + 1 / 2\<rfloor> = z * 10 ^ p"
    by (rule floor_unique) simp_all
  then show ?thesis by (simp add: floatRound_def Let_def)
qed

lemma expectedBpm_example:
  "expectedBpm precision 1 (T + 500) T = Num 120"
  "expectedBpm precision 2 (T + 1000) T = Num 120"
  "expectedBpm precision 3 (T + 1500) T = Num 120"
  using floatRound_int [of 120] by (simp_all add: expectedBpm_def Let_def split: option.splits)

lemma tapResetFires_initial: "tapResetFires s = (initialTapState, [Inr ''--''])"
  by (simp add: tapResetFires_def initialTapState_def)

text \<open>
  Claim C8, as the specification states it, fails. The code marks "no tap yet" by a time
  stamp of 0, so a first tap at \<open>t = 0\<close> is not recorded as the first tap: for taps at 0,
  500, 1000 and 1500 ms the second tap makes no call, and the third and the fourth report
  240 and 180.
\<close>

theorem tap_counterexample:
  "snd (clicks None [0, 500, 1000, 1500] initialTapState) = [Inl (Num 240), Inl (Num 180)]"
  by (simp add: click_def elapse_def tapBpm_def initialTapState_def)

text \<open>
  Claim C8, amended: let the taps of a session come at the time stamps \<open>t0, t1, ...\<close>, none
  of them 0 and each less than 5000 ms after the one before. Then the first tap makes no
  call, and the tap number \<open>k \<ge> 1\<close> calls the callback once, with
  \<open>60000 * k / (tk - t0)\<close> rounded to the configured precision. When 5000 ms have passed
  since the last tap, the timer sets the count and the three time stamps to 0 and calls
  the callback with \<open>"--"\<close>.
\<close>

theorem tap_session:
  assumes "t0 \<noteq> 0" "\<forall>t\<in>set later. t \<noteq> 0" "withinIdle t0 later"
  shows "snd (clicks precision (t0 # later) initialTapState) =
           map (\<lambda>(k, t). Inl (expectedBpm precision k t t0)) (zip [1..<Suc (length later)] later) \<and>
         (\<forall>now. last (t0 # later) + 5000 \<le> now \<longrightarrow>
            elapse now (fst (clicks precision (t0 # later) initialTapState)) =
              (initialTapState, [Inr ''--'']))"
proof -
  let ?s = "\<lparr>count_tap = 1, ts_current = t0, ts_previous = t0, ts_first = t0,
     tapReset = Some (t0 + 5000)\<rparr>"
  have first: "click precision t0 initialTapState = (?s, [])"
    using assms(1) by (simp add: click_def elapse_def tapBpm_def initialTapState_def Let_def)
  have rest: "snd (clicks precision later ?s) =
           map (\<lambda>(k, t). Inl (expectedBpm precision k t (ts_first ?s)))
             (zip [count_tap ?s..<count_tap ?s + length later] later) \<and>
         ts_previous (fst (clicks precision later ?s)) = last (ts_previous ?s # later) \<and>
         tapReset (fst (clicks precision later ?s)) = Some (last (ts_previous ?s # later) + 5000)"
    using assms by (intro clicks_in_session) simp_all
  obtain s' out where run: "clicks precision later ?s = (s', out)" by fastforce
  have all: "clicks precision (t0 # later) initialTapState = (s', out)"
    using run by (simp add: first)
  have out: "out = map (\<lambda>(k, t). Inl (expectedBpm precision k t t0)) (zip [1..<Suc (length later)] later)"
    using rest run by simp
  have due: "tapReset s' = Some (last (t0 # later) + 5000)"
    using rest run by simp
  have "elapse now s' = (initialTapState, [Inr ''--''])" if "last (t0 # later) + 5000 \<le> now" for now
    using that due by (simp add: elapse_def tapResetFires_initial del: last.simps)
  with out all show ?thesis by simp
qed

theorem tap_session_witness:
  "snd (clicks (Some 2) [1700000000000, 1700000000500, 1700000001000, 1700000001500]
      initialTapState) = [Inl (Num 120), Inl (Num 120), Inl (Num 120)] \<and>
   elapse 1700000006501
     (fst (clicks (Some 2) [1700000000000, 1700000000500, 1700000001000, 1700000001500]
        initialTapState)) = (initialTapState, [Inr ''--''])"
proof -
  have "withinIdle 1700000000000 [1700000000500, 1700000001000, 1700000001500]" by simp
  from tap_session [OF _ _ this, of "Some 2"]
  show ?thesis
    by (simp add: upt_rec expectedBpm_def floatRound_def Let_def)
qed

text \<open>Taps every 500 ms report 120, at any precision.\<close>

lemma tap_every_500:
  assumes "0 < T"
  shows "snd (clicks precision [T, T + 500, T + 1000, T + 1500] initialTapState) =
           [Inl (Num 120), Inl (Num 120), Inl (Num 120)]"
  using assms expectedBpm_example [of precision T]
  by (simp add: click_in_session click_def [of precision T] elapse_def tapBpm_def
      initialTapState_def Let_def numeral_2_eq_2 numeral_3_eq_3)

section \<open>Octave folding\<close>

text \<open>The doubling loop.\<close>

lemma doubleTempo_Num:
  assumes "doubleTempo lo (Num x) = Some t"
  shows "\<exists>y. t = Num y \<and> lo < y"
proof -
  have "\<forall>x. a = Num x \<longrightarrow> (\<exists>y. t = Num y \<and> lo < y)" if "doubleTempo lo a = Some t" for a
    by (rule doubleTempo.raw_induct
        [where P = "\<lambda>lo a t. \<forall>x. a = Num x \<longrightarrow> (\<exists>y. t = Num y \<and> lo < y)", OF _ that])
      (auto split: if_splits)
  with assms show ?thesis by blast
qed

lemma doubleTempo_NegInf: "doubleTempo lo NegInf = None"
proof -
  have "t \<noteq> NegInf" if "doubleTempo lo t = Some y" for t y
    by (rule doubleTempo.raw_induct [where P = "\<lambda>lo t y. t \<noteq> NegInf", OF _ that])
      (fastforce split: if_splits simp: scaleInf_def)
  then show ?thesis by (cases "doubleTempo lo NegInf") auto
qed



text \<open>The halving loop.\<close>

lemma halveTempo_Num:
  assumes "halveTempo hi (Num x) = Some t"
  shows "\<exists>y. t = Num y \<and> y \<le> hi \<and> (\<forall>lo. lo < x \<and> 2 * lo \<le> hi \<longrightarrow> lo < y)"
proof -
  have "\<forall>x. a = Num x \<longrightarrow>
      (\<exists>y. t = Num y \<and> y \<le> hi \<and> (\<forall>lo. lo < x \<and> 2 * lo \<le> hi \<longrightarrow> lo < y))"
    if "halveTempo hi a = Some t" for a
  proof (rule halveTempo.raw_induct
      [where P = "\<lambda>hi a t. \<forall>x. a = Num x \<longrightarrow>
        (\<exists>y. t = Num y \<and> y \<le> hi \<and> (\<forall>lo. lo < x \<and> 2 * lo \<le> hi \<longrightarrow> lo < y))", OF _ that])
    fix f hi a t
    assume IH: "\<And>hi a t. f hi a = Some t \<Longrightarrow> \<forall>x. a = Num x \<longrightarrow>
        (\<exists>y. t = Num y \<and> y \<le> hi \<and> (\<forall>lo. lo < x \<and> 2 * lo \<le> hi \<longrightarrow> lo < y))"
      and step: "(if ngt a (Num hi) then f hi (ndiv a (Num 2)) else Some a) = Some t"
    show "\<forall>x. a = Num x \<longrightarrow>
        (\<exists>y. t = Num y \<and> y \<le> hi \<and> (\<forall>lo. lo < x \<and> 2 * lo \<le> hi \<longrightarrow> lo < y))"
    proof (intro allI impI)
      fix x assume a: "a = Num x"
      show "\<exists>y. t = Num y \<and> y \<le> hi \<and> (\<forall>lo. lo < x \<and> 2 * lo \<le> hi \<longrightarrow> lo < y)"
      proof (cases "hi < x")
        case True
        with step a have "f hi (Num (x / 2)) = Some t" by simp
        from IH [OF this] obtain y where y: "t = Num y" "y \<le> hi"
          and low: "\<forall>lo. lo < x / 2 \<and> 2 * lo \<le> hi \<longrightarrow> lo < y" by blast
        have "lo < y" if "lo < x \<and> 2 * lo \<le> hi" for lo
        proof -
          from that True have "lo < x / 2" by simp
          with that low show ?thesis by blast
        qed
        with y show ?thesis by blast
      next
        case False
        with step a show ?thesis by auto
      qed
    qed
  qed
  with assms show ?thesis by blast
qed




lemma foldTempo_range:
  assumes "bpmRange cfg = (lo, hi)" "2 * lo \<le> hi" "raw \<noteq> NaN" "foldTempo cfg raw = Some t"
  shows "\<exists>z. t = Num z \<and> lo < z \<and> z \<le> hi"
proof (cases raw)
  case (Num x)
  with assms obtain t' where d: "doubleTempo lo (Num x) = Some t'" and h: "halveTempo hi t' = Some t"
    by (auto simp: foldTempo_def split: option.splits)
  from doubleTempo_Num [OF d] obtain y where y: "t' = Num y" "lo < y" by blast
  from halveTempo_Num [OF h [unfolded y(1)]] y(2) assms(2) show ?thesis by blast
next
  case PosInf
  with assms show ?thesis by (simp add: foldTempo_PosInf)
next
  case NegInf
  with assms show ?thesis by (simp add: foldTempo_def doubleTempo_NegInf)
next
  case NaN
  with assms show ?thesis by simp
qed

section \<open>The tempo of a group\<close>

lemma vote_tempo: "map tempo (snd (vote peak t groups)) = map tempo groups"
  by (induction groups) (auto split: prod.splits)

lemma castVote_tempo:
  "set (map tempo (castVote cfg peak folded groups)) \<subseteq>
     insert (roundTempo cfg folded) (set (map tempo groups))"
proof -
  obtain e gs where v: "vote peak (roundTempo cfg folded) groups = (e, gs)" by fastforce
  then have "map tempo gs = map tempo groups"
    using vote_tempo [of peak "roundTempo cfg folded" groups] by simp
  then have "tempo ` set gs = tempo ` set groups" by (metis set_map)
  with v show ?thesis by (auto simp: castVote_def Let_def)
qed

lemma rawTempo_finite:
  assumes "sampleRate cfg \<noteq> 0" "isFinite (position a)" "isFinite (position b)"
  shows "rawTempo cfg a b \<noteq> NaN"
  using assms by (auto simp: rawTempo_def isFinite_Num split: if_splits)



text \<open>Every tempo in the groups comes from a folded tempo.\<close>

lemma getIntervals_peak_tempo:
  "\<forall>a\<in>set peaks. \<forall>b\<in>set peaks. \<forall>t.
      foldTempo cfg (rawTempo cfg a b) = Some t \<longrightarrow> Q (roundTempo cfg t) \<Longrightarrow>
   getIntervals_peak cfg peaks index i groups = Some groups' \<Longrightarrow>
   \<forall>t\<in>set (map tempo groups). Q t \<Longrightarrow> \<forall>t\<in>set (map tempo groups'). Q t"
proof (induction cfg peaks index i groups rule: getIntervals_peak.induct)
  case (1 cfg peaks index i groups)
  show ?case
  proof (cases "index + i < length peaks \<and> i < 10")
    case True
    let ?raw = "rawTempo cfg (peaks ! index) (peaks ! (index + i))"
    from "1.prems"(2) True obtain folded where
      folded: "foldTempo cfg ?raw = Some folded"
      and rest: "getIntervals_peak cfg peaks index (i + 1)
                   (castVote cfg (peaks ! index) folded groups) = Some groups'"
      by (subst (asm) getIntervals_peak.simps) (auto split: option.splits)
    have "peaks ! index \<in> set peaks" "peaks ! (index + i) \<in> set peaks"
      using True by simp_all
    with "1.prems"(1) folded have "Q (roundTempo cfg folded)" by blast
    then have "\<forall>t\<in>set (map tempo (castVote cfg (peaks ! index) folded groups)). Q t"
      using "1.prems"(3) castVote_tempo [of cfg "peaks ! index" folded groups] by auto
    from "1.IH" [OF True folded "1.prems"(1) rest this] show ?thesis .
  next
    case False
    with "1.prems" show ?thesis by (subst (asm) getIntervals_peak.simps) simp
  qed
qed

lemma getIntervals_forEach_tempo:
  "\<forall>a\<in>set peaks. \<forall>b\<in>set peaks. \<forall>t.
      foldTempo cfg (rawTempo cfg a b) = Some t \<longrightarrow> Q (roundTempo cfg t) \<Longrightarrow>
   getIntervals_forEach cfg peaks index groups = Some groups' \<Longrightarrow>
   \<forall>t\<in>set (map tempo groups). Q t \<Longrightarrow> \<forall>t\<in>set (map tempo groups'). Q t"
proof (induction cfg peaks index groups rule: getIntervals_forEach.induct)
  case (1 cfg peaks index groups)
  show ?case
  proof (cases "index < length peaks")
    case True
    from "1.prems"(2) True obtain mid where
      mid: "getIntervals_peak cfg peaks index 1 groups = Some mid"
      and rest: "getIntervals_forEach cfg peaks (index + 1) mid = Some groups'"
      by (subst (asm) getIntervals_forEach.simps) (auto split: option.splits)
    from getIntervals_peak_tempo [OF "1.prems"(1) mid "1.prems"(3)]
    have "\<forall>t\<in>set (map tempo mid). Q t" .
    from "1.IH" [OF True mid "1.prems"(1) rest this] show ?thesis .
  next
    case False
    with "1.prems" show ?thesis by (subst (asm) getIntervals_forEach.simps) simp
  qed
qed

lemma roundTempo_Num: "\<exists>r. roundTempo cfg (Num z) = Num r"
  by (simp add: roundTempo_def floatRound_def Let_def)

lemma roundTempo_mono:
  assumes "a \<le> b"
  shows "nle (roundTempo cfg (Num a)) (roundTempo cfg (Num b))"
proof -
  have "\<lfloor>a + 1 / 2\<rfloor> \<le> \<lfloor>b + 1 / 2\<rfloor>" using assms by (intro floor_mono) simp
  moreover have "\<lfloor>a * 10 ^ float cfg + 1 / 2\<rfloor> \<le> \<lfloor>b * 10 ^ float cfg + 1 / 2\<rfloor>"
    using assms by (intro floor_mono) (simp add: mult_right_mono)
  ultimately show ?thesis
    by (simp add: roundTempo_def floatRound_def Let_def divide_right_mono)
qed

text \<open>
  Claim C1, as the specification states it, fails in two ways. The loops double while
  \<open>tempo \<le> min\<close> and halve while \<open>tempo > max\<close>, so \<open>max\<close> itself is a possible tempo:
  with the default options, two peaks 14700 samples apart give the tempo 180 with the range
  \<open>[90, 180)\<close>. And when \<open>max < 2 * min\<close> the halving can go below \<open>min\<close>: with the range
  \<open>[90, 100)\<close>, two peaks 22050 samples apart (120 beats per minute) give the tempo 60.
\<close>

theorem tempo_range_counterexample:
  "getIntervals defaults
     [\<lparr>position = Num 0, volume = Num 1\<rparr>, \<lparr>position = Num 14700, volume = Num 1\<rparr>] =
     Some [\<lparr>tempo = Num 180, count = 1, position_g = Num 0, peaks_g = []\<rparr>] \<and>
   \<not> 180 < snd (bpmRange defaults) \<and>
   getIntervals (defaults\<lparr>bpmRange := (90, 100)\<rparr>)
     [\<lparr>position = Num 0, volume = Num 1\<rparr>, \<lparr>position = Num 22050, volume = Num 1\<rparr>] =
     Some [\<lparr>tempo = Num 60, count = 1, position_g = Num 0, peaks_g = []\<rparr>] \<and>
   \<not> fst (bpmRange (defaults\<lparr>bpmRange := (90, 100)\<rparr>)) \<le> 60"
  by (simp add: tempo_simps)

text \<open>
  Claim C1, amended: for a range with \<open>2 * min \<le> max\<close>, a sample rate that is not 0 and
  peaks at finite positions, every group that the clusterer returns has a tempo that is
  the rounding, as configured, of a folded tempo \<open>t\<close> with \<open>min < t \<le> max\<close>. After the
  rounding the tempo lies between the rounding of \<open>min\<close> and the rounding of \<open>max\<close>, both
  included.
\<close>

theorem tempo_in_range:
  assumes "sampleRate cfg \<noteq> 0" "\<forall>peak\<in>set peaks. isFinite (position peak)"
    and "bpmRange cfg = (lo, hi)" "2 * lo \<le> hi"
    and "getIntervals cfg peaks = Some groups" "interval \<in> set groups"
  shows "\<exists>t. lo < t \<and> t \<le> hi \<and> tempo interval = roundTempo cfg (Num t) \<and>
           nle (roundTempo cfg (Num lo)) (tempo interval) \<and>
           nle (tempo interval) (roundTempo cfg (Num hi))"
proof -
  let ?Q = "\<lambda>r. \<exists>t. lo < t \<and> t \<le> hi \<and> r = roundTempo cfg (Num t)"
  have fold: "\<forall>a\<in>set peaks. \<forall>b\<in>set peaks. \<forall>t.
      foldTempo cfg (rawTempo cfg a b) = Some t \<longrightarrow> ?Q (roundTempo cfg t)"
  proof (intro ballI allI impI)
    fix a b t assume "a \<in> set peaks" "b \<in> set peaks"
      and t: "foldTempo cfg (rawTempo cfg a b) = Some t"
    then have "rawTempo cfg a b \<noteq> NaN" using assms(1,2) by (intro rawTempo_finite) simp_all
    from foldTempo_range [OF assms(3,4) this t] show "?Q (roundTempo cfg t)" by blast
  qed
  have "\<forall>r\<in>set (map tempo groups). ?Q r"
    using getIntervals_forEach_tempo [OF fold assms(5) [unfolded getIntervals_def]] by simp
  with assms(6) obtain t where t: "lo < t" "t \<le> hi" "tempo interval = roundTempo cfg (Num t)"
    by auto
  moreover have "nle (roundTempo cfg (Num lo)) (roundTempo cfg (Num t))"
    using t(1) by (intro roundTempo_mono) simp
  moreover have "nle (roundTempo cfg (Num t)) (roundTempo cfg (Num hi))"
    using t(2) by (intro roundTempo_mono)
  ultimately show ?thesis by auto
qed

theorem tempo_in_range_witness:
  "sampleRate defaults \<noteq> 0 \<and> bpmRange defaults = (90, 180) \<and>
   getIntervals defaults
     [\<lparr>position = Num 0, volume = Num 1\<rparr>, \<lparr>position = Num 14700, volume = Num 1\<rparr>,
      \<lparr>position = Num 44100, volume = Num 1\<rparr>] =
     Some [\<lparr>tempo = Num 180, count = 2, position_g = Num 0,
             peaks_g = [\<lparr>position = Num 14700, volume = Num 1\<rparr>]\<rparr>,
           \<lparr>tempo = Num 120, count = 1, position_g = Num 0, peaks_g = []\<rparr>] \<and>
   (\<exists>t. 90 < t \<and> t \<le> 180 \<and> Num 120 = roundTempo defaults (Num t))"
proof -
  let ?peaks = "[\<lparr>position = Num 0, volume = Num 1\<rparr>, \<lparr>position = Num 14700, volume = Num 1\<rparr>,
      \<lparr>position = Num 44100, volume = Num 1\<rparr>]"
  let ?g = "\<lparr>tempo = Num 120, count = 1, position_g = Num 0, peaks_g = []\<rparr>"
  have rate: "sampleRate defaults \<noteq> 0" and range: "bpmRange defaults = (90, 180)"
    by (simp_all add: defaults_def)
  have fin: "\<forall>peak\<in>set ?peaks. isFinite (position peak)" by simp
  have run: "getIntervals defaults ?peaks =
     Some [\<lparr>tempo = Num 180, count = 2, position_g = Num 0,
             peaks_g = [\<lparr>position = Num 14700, volume = Num 1\<rparr>]\<rparr>, ?g]"
    by (simp add: tempo_simps)
  from tempo_in_range [OF rate fin range _ run, of ?g]
  have "\<exists>t. 90 < t \<and> t \<le> 180 \<and> Num 120 = roundTempo defaults (Num t)" by auto
  with rate range run show ?thesis by simp
qed

section \<open>Termination of the folding\<close>







end
